theory Spec2Isabelle
  imports Complex_Main
begin

section \<open>std::string operations used by the sources\<close>

text \<open>
  A \<open>std::string\<close> is a \<open>char list\<close>. The searching members return \<open>npos\<close> when
  nothing is found; here that is \<open>None\<close>, and every place where the source does
  arithmetic on \<open>npos\<close> (\<open>npos + 1\<close> wraps to \<open>0\<close>) is written out at the call site.
\<close>

text \<open>The literal \<open>" \t\r\n"\<close> of the sources.\<close>

definition whitespace :: "char list" where
  "whitespace = [CHR '' '', CHR 0x09, CHR 0x0D, CHR 0x0A]"

text \<open>\<open>s.find(c)\<close>: index of the first occurrence of \<open>c\<close>.\<close>

fun find_char :: "char \<Rightarrow> string \<Rightarrow> nat option" where
  "find_char c [] = None"
| "find_char c (x # xs) = (if x = c then Some 0 else map_option Suc (find_char c xs))"

text \<open>\<open>s.find_first_not_of(cs)\<close>: index of the first character that is not in \<open>cs\<close>.\<close>

fun find_first_not_of :: "char list \<Rightarrow> string \<Rightarrow> nat option" where
  "find_first_not_of cs [] = None"
| "find_first_not_of cs (x # xs) =
     (if x \<notin> set cs then Some 0 else map_option Suc (find_first_not_of cs xs))"

text \<open>\<open>s.find_last_not_of(cs)\<close>: index of the last character that is not in \<open>cs\<close>.\<close>

definition find_last_not_of :: "char list \<Rightarrow> string \<Rightarrow> nat option" where
  "find_last_not_of cs s =
     map_option (\<lambda>i. length s - 1 - i) (find_first_not_of cs (rev s))"

text \<open>
  \<open>s.erase(s.find_last_not_of(" \t\r\n") + 1)\<close>: everything from the given index on is
  removed. When no character qualifies the index is \<open>npos + 1 = 0\<close> and the string
  becomes empty.
\<close>

definition erase_trailing :: "string \<Rightarrow> string" where
  "erase_trailing s =
     (case find_last_not_of whitespace s of
        None \<Rightarrow> take 0 s
      | Some i \<Rightarrow> take (i + 1) s)"

text \<open>
  \<open>s.erase(0, s.find_first_not_of(" \t\r\n"))\<close>: the given number of leading
  characters is removed; a count of \<open>npos\<close> removes all of them.
\<close>

definition erase_leading :: "string \<Rightarrow> string" where
  "erase_leading s =
     (case find_first_not_of whitespace s of
        None \<Rightarrow> []
      | Some i \<Rightarrow> drop i s)"

text \<open>
  What the specification calls trimming: the text without its leading and trailing
  white space. The sources reach it through the two \<open>erase\<close> calls above.
\<close>

definition strip :: "string \<Rightarrow> string" where
  "strip s =
     dropWhile (\<lambda>ch. ch \<in> set whitespace)
       (rev (dropWhile (\<lambda>ch. ch \<in> set whitespace) (rev s)))"

section \<open>VssVehicleEmulator: the ingestion orchestrator\<close>

subsection \<open>parseVssMessage\<close>

text \<open>
  The source returns \<open>false\<close> or fills the two output strings and returns \<open>true\<close>;
  the model returns \<open>None\<close> or the pair (path, value). For the empty message
  \<open>find\<close> yields \<open>npos\<close>, so the wrapping \<open>message.length() - 1\<close> is never compared
  with a real index; for a found index the message is not empty and the comparison is
  \<open>Suc equals_pos = length message\<close>.
\<close>

definition parseVssMessage :: "string \<Rightarrow> (string \<times> string) option" where
  "parseVssMessage message =
     (case find_char CHR ''='' message of
        None \<Rightarrow> None
      | Some equals_pos \<Rightarrow>
          if equals_pos = 0 \<or> Suc equals_pos = length message then None
          else
            let vssPath = take equals_pos message;
                vssValue = drop (equals_pos + 1) message;
                vssPath = erase_leading (erase_trailing vssPath);
                vssValue = erase_leading (erase_trailing vssValue)
            in if vssPath = [] \<or> vssValue = [] then None
               else Some (vssPath, vssValue))"

subsection \<open>The collaborators of the emulator\<close>

text \<open>
  A call into code that may throw a \<open>std::exception\<close> either returns or throws.
\<close>

datatype 'a outcome = Returns 'a | Throws

text \<open>The status code of the vehicle HAL; only \<open>OK\<close> is distinguished by the emulator.\<close>

datatype StatusCode = OK | TRY_AGAIN | INVALID_ARG | NOT_AVAILABLE | ACCESS_DENIED | INTERNAL_ERROR

text \<open>
  The emulator calls three things whose bodies are outside the translated sources: the
  converter (\<open>mVssConverter->convertVssToVhal\<close>, which returns \<open>false\<close>, or \<open>true\<close>
  with a property value, or throws), the inherited \<open>VehicleEmulator::doSetProperty\<close>
  and the manager \<open>mHal\<close> (a pointer, possibly null) with its
  \<open>setPropertyFromVehicle\<close>. They are parameters of the model. The last two act on the
  property store, of an arbitrary type \<open>'s\<close>; a property value has type \<open>'v\<close>.
\<close>

record ('v, 's) collaborators =
  convertVssToVhal :: "string \<Rightarrow> string \<Rightarrow> 'v option outcome"
  doSetProperty :: "'v \<Rightarrow> 's \<Rightarrow> 's \<times> StatusCode outcome"
  mHal :: "('v \<Rightarrow> 's \<Rightarrow> 's \<times> unit outcome) option"

subsection \<open>The emulator object\<close>

text \<open>
  The three statistics are atomic counters whose declaration is in the class header;
  they are only ever incremented and are modelled as natural numbers.
\<close>

record 's VssVehicleEmulator =
  mInitialized :: bool
  mActive :: bool
  mMessagesProcessed :: nat
  mMessagesConverted :: nat
  mConversionErrors :: nat
  propertyStore :: 's

definition isActive :: "'s VssVehicleEmulator \<Rightarrow> bool" where
  "isActive e = (mActive e \<and> mInitialized e)"

text \<open>
  \<open>updateVhalProperty\<close>: the whole body is inside \<open>try\<close>, and an exception makes it
  return \<open>false\<close>. The store is returned as the collaborators leave it.
\<close>

definition updateVhalProperty :: "('v, 's) collaborators \<Rightarrow> 'v \<Rightarrow> 's \<Rightarrow> 's \<times> bool" where
  "updateVhalProperty env propValue s =
     (case doSetProperty env propValue s of
        (s1, Throws) \<Rightarrow> (s1, False)
      | (s1, Returns result) \<Rightarrow>
          if result = OK then
            (case mHal env of
               None \<Rightarrow> (s1, True)
             | Some setPropertyFromVehicle \<Rightarrow>
                 (case setPropertyFromVehicle propValue s1 of
                    (s2, Throws) \<Rightarrow> (s2, False)
                  | (s2, Returns _) \<Rightarrow> (s2, True)))
          else (s1, False))"

definition count_processed :: "'s VssVehicleEmulator \<Rightarrow> 's VssVehicleEmulator" where
  "count_processed e = e\<lparr>mMessagesProcessed := mMessagesProcessed e + 1\<rparr>"

definition count_converted :: "'s VssVehicleEmulator \<Rightarrow> 's VssVehicleEmulator" where
  "count_converted e = e\<lparr>mMessagesConverted := mMessagesConverted e + 1\<rparr>"

definition count_error :: "'s VssVehicleEmulator \<Rightarrow> 's VssVehicleEmulator" where
  "count_error e = e\<lparr>mConversionErrors := mConversionErrors e + 1\<rparr>"

text \<open>
  \<open>processVssMessage\<close>, branch by branch as in the source: the early return when the
  emulator is not active, the increment of the processed counter, and inside \<open>try\<close> the
  parse, the conversion and the store update; the \<open>catch\<close> clause counts an error.
\<close>

definition processVssMessage ::
  "('v, 's) collaborators \<Rightarrow> string \<Rightarrow> 's VssVehicleEmulator \<Rightarrow> 's VssVehicleEmulator" where
  "processVssMessage env message e =
     (if \<not> isActive e then e
      else
        let e1 = count_processed e in
        case parseVssMessage message of
          None \<Rightarrow> count_error e1
        | Some (vssPath, vssValue) \<Rightarrow>
            (case convertVssToVhal env vssPath vssValue of
               Throws \<Rightarrow> count_error e1
             | Returns None \<Rightarrow> count_error e1
             | Returns (Some propValue) \<Rightarrow>
                 (case updateVhalProperty env propValue (propertyStore e1) of
                    (s', True) \<Rightarrow> count_converted (e1\<lparr>propertyStore := s'\<rparr>)
                  | (s', False) \<Rightarrow> count_error (e1\<lparr>propertyStore := s'\<rparr>))))"

section \<open>VssSocketComm: the stream-socket listener\<close>

subsection \<open>The operating system as seen by the listener\<close>

text \<open>
  Every call the listener makes to the operating system or to the thread library is
  appended to a log kept beside the object, so that a statement can say which calls
  a method made. \<open>Sys_connect\<close> is part of the socket interface; no method of the
  listener issues it.
\<close>

datatype sockopt = SO_REUSEADDR | SO_RCVTIMEO

datatype syscall =
    Sys_socket
  | Sys_setsockopt int sockopt
  | Sys_bind int int
  | Sys_listen int
  | Sys_accept int
  | Sys_connect int
  | Sys_recv int
  | Sys_close int
  | Thread_spawn
  | Thread_join
  | Thread_sleep

datatype errno = EWOULDBLOCK | EAGAIN | EOTHER

text \<open>
  What \<open>recv\<close> gave back: a positive number of bytes (the bytes themselves), zero
  (the peer closed the connection) or \<open>-1\<close> with an error number (a receive timeout is
  \<open>EWOULDBLOCK\<close> or \<open>EAGAIN\<close>). What \<open>accept\<close> gave back: a descriptor or \<open>-1\<close> with an
  error number.
\<close>

datatype recv_result = Recv_bytes string | Recv_closed | Recv_fail errno

datatype accept_result = Accept_fd int | Accept_fail errno

text \<open>The return values of the four calls of \<open>setupServerSocket\<close> that are tested.\<close>

record setup_replies =
  socket_ret :: int
  setsockopt_ret :: int
  bind_ret :: int
  listen_ret :: int

subsection \<open>The listener object\<close>

text \<open>
  The fields of \<open>VssCommConn\<close> and \<open>VssSocketComm\<close>. \<open>mProcessor\<close> records whether the
  shared pointer is non-null, \<open>mReadThread\<close> whether the thread object is joinable.
  \<open>delivered\<close> lists the messages handed to \<open>mProcessor->processVssMessage\<close> and
  \<open>calls\<close> is the log of system calls, both oldest first.
\<close>

record VssSocketComm =
  mProcessor :: bool
  mRunning :: bool
  mReadThread :: bool
  mPort :: int
  mServerSocket :: int
  mClientSocket :: int
  mHasActiveConnection :: bool
  delivered :: "string list"
  calls :: "syscall list"

definition sys :: "syscall \<Rightarrow> VssSocketComm \<Rightarrow> VssSocketComm" where
  "sys e c = c\<lparr>calls := calls c @ [e]\<rparr>"

definition isRunning :: "VssSocketComm \<Rightarrow> bool" where
  "isRunning c = mRunning c"

definition processMessage :: "string \<Rightarrow> VssSocketComm \<Rightarrow> VssSocketComm" where
  "processMessage message c =
     (if mProcessor c \<and> message \<noteq> [] then c\<lparr>delivered := delivered c @ [message]\<rparr>
      else c)"

definition closeSocket :: "VssSocketComm \<Rightarrow> VssSocketComm" where
  "closeSocket c =
     (let c1 = (if mClientSocket c \<ge> 0
                then (sys (Sys_close (mClientSocket c)) c)
                       \<lparr>mClientSocket := -1, mHasActiveConnection := False\<rparr>
                else c)
      in if mServerSocket c1 \<ge> 0
         then (sys (Sys_close (mServerSocket c1)) c1)\<lparr>mServerSocket := -1\<rparr>
         else c1)"

definition setupServerSocket :: "setup_replies \<Rightarrow> VssSocketComm \<Rightarrow> VssSocketComm \<times> bool" where
  "setupServerSocket rep c =
     (let c1 = (sys Sys_socket c)\<lparr>mServerSocket := socket_ret rep\<rparr> in
      if mServerSocket c1 < 0 then (c1, False)
      else
        let c2 = sys (Sys_setsockopt (mServerSocket c1) SO_REUSEADDR) c1 in
        if setsockopt_ret rep < 0 then (closeSocket c2, False)
        else
          let c3 = sys (Sys_setsockopt (mServerSocket c2) SO_RCVTIMEO) c2;
              c4 = sys (Sys_bind (mServerSocket c3) (mPort c3)) c3
          in if bind_ret rep < 0 then (closeSocket c4, False)
             else
               let c5 = sys (Sys_listen (mServerSocket c4)) c4 in
               if listen_ret rep < 0 then (closeSocket c5, False)
               else (c5, True))"

text \<open>
  \<open>start\<close>: the thread it creates runs \<open>readLoop\<close>; creating it is logged and makes
  \<open>mReadThread\<close> joinable.
\<close>

definition start :: "setup_replies \<Rightarrow> VssSocketComm \<Rightarrow> VssSocketComm \<times> bool" where
  "start rep c =
     (if mRunning c then (c, True)
      else
        case setupServerSocket rep c of
          (c1, False) \<Rightarrow> (c1, False)
        | (c1, True) \<Rightarrow>
            ((sys Thread_spawn (c1\<lparr>mRunning := True\<rparr>))\<lparr>mReadThread := True\<rparr>, True))"

text \<open>
  \<open>acceptConnection\<close>: the list holds what the coming calls of \<open>accept\<close> give back;
  the call takes its head. When the list is empty and \<open>accept\<close> would be called, the
  method has not returned and the result is \<open>None\<close>; otherwise the result is the
  returned boolean, the object and the rest of the list.
\<close>

definition acceptConnection ::
  "VssSocketComm \<Rightarrow> accept_result list \<Rightarrow> (bool \<times> VssSocketComm \<times> accept_result list) option" where
  "acceptConnection c as =
     (if mServerSocket c < 0 then Some (False, c, as)
      else
        case as of
          [] \<Rightarrow> None
        | reply # as' \<Rightarrow>
            let c1 = sys (Sys_accept (mServerSocket c)) c in
            (case reply of
               Accept_fail e \<Rightarrow> Some (False, c1\<lparr>mClientSocket := -1\<rparr>, as')
             | Accept_fd fd \<Rightarrow>
                 let c2 = c1\<lparr>mClientSocket := fd\<rparr> in
                 if mClientSocket c2 < 0 then Some (False, c2, as')
                 else
                   Some (True,
                         (sys (Sys_setsockopt (mClientSocket c2) SO_RCVTIMEO) c2)
                           \<lparr>mHasActiveConnection := True\<rparr>,
                         as')))"

text \<open>
  The branch of \<open>readMessage\<close> taken when the peer has gone or the read failed: the
  connection is marked inactive and the client descriptor is closed.
\<close>

definition dropClient :: "VssSocketComm \<Rightarrow> VssSocketComm" where
  "dropClient c =
     (sys (Sys_close (mClientSocket c)) (c\<lparr>mHasActiveConnection := False\<rparr>))
       \<lparr>mClientSocket := -1\<rparr>"

text \<open>
  The \<open>while\<close> loop of \<open>readMessage\<close>. \<open>message\<close> is the local string of the method;
  the list holds what the coming calls of \<open>recv\<close> give back. Each call of \<open>recv\<close>
  takes the head of the list; when the list is empty and the loop would call \<open>recv\<close>,
  the method has not returned: the result is \<open>None\<close>. Otherwise the result is the
  returned string, the object and the rest of the list.
  \<open>buffer[bytes_read] = '\0'; message += buffer\<close> appends a C string, so the bytes
  are taken up to the first zero byte.
\<close>

fun readMessage_loop ::
  "VssSocketComm \<Rightarrow> string \<Rightarrow> recv_result list \<Rightarrow>
     (string \<times> VssSocketComm \<times> recv_result list) option" where
  "readMessage_loop c message [] =
     (if mRunning c \<and> mHasActiveConnection c then None else Some ([], c, []))"
| "readMessage_loop c message (r # rs) =
     (if \<not> (mRunning c \<and> mHasActiveConnection c) then Some ([], c, r # rs)
      else
        let c1 = sys (Sys_recv (mClientSocket c)) c in
        case r of
          Recv_bytes bytes \<Rightarrow>
            if length bytes > 0 then
              let message = message @ takeWhile (\<lambda>ch. ch \<noteq> CHR 0x00) bytes in
              (case find_char CHR 0x0A message of
                 None \<Rightarrow> readMessage_loop c1 message rs
               | Some newline_pos \<Rightarrow>
                   let complete_message = take newline_pos message;
                       message = drop (newline_pos + 1) message;
                       complete_message = erase_trailing complete_message
                   in if complete_message \<noteq> [] then Some (complete_message, c1, rs)
                      else readMessage_loop c1 message rs)
            else Some ([], dropClient c1, rs)
        | Recv_closed \<Rightarrow> Some ([], dropClient c1, rs)
        | Recv_fail e \<Rightarrow>
            if e = EWOULDBLOCK \<or> e = EAGAIN then readMessage_loop c1 message rs
            else Some ([], dropClient c1, rs))"

definition readMessage ::
  "VssSocketComm \<Rightarrow> recv_result list \<Rightarrow>
     (string \<times> VssSocketComm \<times> recv_result list) option" where
  "readMessage c rs =
     (if mClientSocket c < 0 \<or> \<not> mHasActiveConnection c then Some ([], c, rs)
      else readMessage_loop c [] rs)"

text \<open>
  The result of running \<open>readLoop\<close> for a bounded number of iterations of its \<open>while\<close>
  loop. \<open>Exited\<close>: the loop condition was false. \<open>Waiting\<close>: a call of
  \<open>acceptConnection\<close> or \<open>readMessage\<close> has not returned, because it needs more than
  the lists hold; the object is the one before that call. \<open>Unfinished\<close>: the iterations
  were used up.
\<close>

datatype loop_result =
    Exited VssSocketComm
  | Waiting VssSocketComm
  | Unfinished VssSocketComm

text \<open>
  \<open>readLoop\<close>, run for at most the given number of iterations. \<open>accept\<close> takes the head
  of the first list, \<open>recv\<close> the head of the second. An iteration that finds no
  connection and fails to accept one sleeps and starts over; otherwise it reads a
  message and, when the message is not empty, hands it to \<open>processMessage\<close>.
\<close>

fun readLoop ::
  "nat \<Rightarrow> VssSocketComm \<Rightarrow> accept_result list \<Rightarrow> recv_result list \<Rightarrow> loop_result" where
  "readLoop 0 c as rs = (if mRunning c then Unfinished c else Exited c)"
| "readLoop (Suc n) c as rs =
     (if \<not> mRunning c then Exited c
      else if \<not> mHasActiveConnection c then
        (case acceptConnection c as of
           None \<Rightarrow> Waiting c
         | Some (accepted, c1, as') \<Rightarrow>
             if \<not> accepted then readLoop n (sys Thread_sleep c1) as' rs
             else
               (case readMessage c1 rs of
                  None \<Rightarrow> Waiting c1
                | Some (message, c2, rs') \<Rightarrow>
                    if message \<noteq> [] then readLoop n (processMessage message c2) as' rs'
                    else readLoop n c2 as' rs'))
      else
        (case readMessage c rs of
           None \<Rightarrow> Waiting c
         | Some (message, c2, rs') \<Rightarrow>
             if message \<noteq> [] then readLoop n (processMessage message c2) as rs'
             else readLoop n c2 as rs'))"

text \<open>
  Three notions used to speak about a run of the listener: the object a result of
  \<open>readLoop\<close> carries, the system calls a method added to the log, and the calls that
  open a connection towards a peer.
\<close>

fun listener_of :: "loop_result \<Rightarrow> VssSocketComm" where
  "listener_of (Exited c) = c"
| "listener_of (Waiting c) = c"
| "listener_of (Unfinished c) = c"

definition new_calls :: "VssSocketComm \<Rightarrow> VssSocketComm \<Rightarrow> syscall list" where
  "new_calls before after = drop (length (calls before)) (calls after)"

fun outbound :: "syscall \<Rightarrow> bool" where
  "outbound (Sys_connect fd) = True"
| "outbound other = False"

text \<open>
  A reply of \<open>recv\<close> after which \<open>readMessage\<close> goes on reading without having completed
  a record: a receive timeout, or bytes without a line feed.
\<close>

fun quiet :: "recv_result \<Rightarrow> bool" where
  "quiet (Recv_fail e) = (e = EWOULDBLOCK \<or> e = EAGAIN)"
| "quiet (Recv_bytes bytes) = (bytes \<noteq> [] \<and> CHR 0x0A \<notin> set bytes)"
| "quiet Recv_closed = False"

text \<open>Whether a run of \<open>readLoop\<close> ended because the loop condition was false.\<close>

fun has_exited :: "loop_result \<Rightarrow> bool" where
  "has_exited (Exited c) = True"
| "has_exited (Waiting c) = False"
| "has_exited (Unfinished c) = False"

section \<open>The conversion engine and the rule registry\<close>

text \<open>
  The sources hold the declarations of \<open>ConverterUtils\<close> (with their documentation) and
  an excerpt of the template from which the per-signal conversion functions of
  \<open>AndroidVssConverter\<close> are generated; the bodies are not among them. The definitions
  of this section are therefore written from the specification and those documents.
  A \<open>float\<close> is idealised as a real number: rounding is not modelled.
\<close>

text \<open>
  Modelled from the spec: the \<open>ParseError\<close> of \<open>parse\<close>; the missing bodies of
  \<open>ConverterUtils\<close> are documented to throw \<open>std::invalid_argument\<close> instead.
\<close>

datatype parse_error = ParseError

text \<open>
  Modelled from the spec: the \<open>data_kind\<close> of a conversion rule; the generated mapping
  table that would carry it is missing.
\<close>

datatype data_kind = Float | Int32 | Int64 | Bool | UTF8String | ByteBlob

text \<open>
  Modelled from the spec: the conversion rule of the data model; the generated mapping
  table of \<open>AndroidVssConverter\<close> is missing. Absent bounds are \<open>None\<close>.
\<close>

record rule =
  path :: string
  target_id :: int
  area_id :: int
  data_kind :: data_kind
  unit_multiplier :: real
  unit_offset :: real
  min_value :: "real option"
  max_value :: "real option"



text \<open>
  Modelled from the spec: \<open>ConverterUtils::trim\<close>, whose body is missing; leading and
  trailing white space is removed.
\<close>

definition trim :: "string \<Rightarrow> string" where
  "trim str = erase_leading (erase_trailing str)"


text \<open>
  Modelled from the spec: the value of a decimal digit, for the numeric parsers whose
  bodies are missing; any other character is a non-numeric remainder.
\<close>

definition digit_of :: "char \<Rightarrow> int option" where
  "digit_of ch =
     (let n = (of_char ch :: int) in if 48 \<le> n \<and> n \<le> 57 then Some (n - 48) else None)"

text \<open>
  Modelled from the spec: the value of a run of decimal digits, for the numeric parsers
  whose bodies are missing; \<open>None\<close> when a character is not a digit.
\<close>

fun digits_value :: "int \<Rightarrow> string \<Rightarrow> int option" where
  "digits_value acc [] = Some acc"
| "digits_value acc (ch # cs) =
     (case digit_of ch of None \<Rightarrow> None | Some d \<Rightarrow> digits_value (10 * acc + d) cs)"

text \<open>
  Modelled from the spec: an unsigned integer numeral, for the numeric parsers whose
  bodies are missing; at least one digit and nothing else.
\<close>

definition unsigned_integer :: "string \<Rightarrow> int option" where
  "unsigned_integer s = (if s = [] then None else digits_value 0 s)"

text \<open>
  Modelled from the spec: an unsigned decimal numeral, for \<open>stringToFloat\<close> whose body is
  missing; digits with an optional point and fraction, at least one digit in all.
\<close>

definition unsigned_decimal :: "string \<Rightarrow> real option" where
  "unsigned_decimal s =
     (let ip = takeWhile (\<lambda>ch. ch \<noteq> CHR ''.'') s;
          rest = dropWhile (\<lambda>ch. ch \<noteq> CHR ''.'') s
      in case rest of
           [] \<Rightarrow> map_option real_of_int (unsigned_integer ip)
         | dot # fp \<Rightarrow>
             if ip = [] \<and> fp = [] then None
             else
               (case (digits_value 0 ip, digits_value 0 fp) of
                  (Some i, Some f) \<Rightarrow> Some (real_of_int i + real_of_int f / 10 ^ length fp)
                | _ \<Rightarrow> None))"

text \<open>
  Modelled from the spec: the optional sign in front of a numeral, for the numeric
  parsers whose bodies are missing; the result says whether the sign is a minus.
\<close>

definition split_sign :: "string \<Rightarrow> bool \<times> string" where
  "split_sign s =
     (case s of
        [] \<Rightarrow> (False, [])
      | ch # cs \<Rightarrow>
          if ch = CHR ''-'' then (True, cs)
          else if ch = CHR ''+'' then (False, cs)
          else (False, s))"

text \<open>
  Modelled from the spec: \<open>ConverterUtils::stringToFloat\<close>, whose body is missing. The
  text is trimmed; a signed decimal numeral is its value, anything else a \<open>ParseError\<close>.
\<close>

definition stringToFloat :: "string \<Rightarrow> parse_error + real" where
  "stringToFloat str =
     (case split_sign (trim str) of
        (negative, body) \<Rightarrow>
          (case unsigned_decimal body of
             None \<Rightarrow> Inl ParseError
           | Some v \<Rightarrow> Inr (if negative then - v else v)))"

text \<open>
  Modelled from the spec: the integer parser behind \<open>stringToInt32\<close> and
  \<open>stringToInt64\<close>, whose bodies are missing. The text is trimmed; a signed integer
  numeral that fits the two's-complement range of the width is its value, anything
  else, an overflow included, a \<open>ParseError\<close>.
\<close>

definition stringToInt :: "nat \<Rightarrow> string \<Rightarrow> parse_error + int" where
  "stringToInt width str =
     (case split_sign (trim str) of
        (negative, body) \<Rightarrow>
          (case unsigned_integer body of
             None \<Rightarrow> Inl ParseError
           | Some n \<Rightarrow>
               let v = (if negative then - n else n) in
               if - (2 ^ (width - 1)) \<le> v \<and> v < 2 ^ (width - 1) then Inr v
               else Inl ParseError))"

text \<open>Modelled from the spec: \<open>ConverterUtils::stringToInt32\<close>, whose body is missing.\<close>

definition stringToInt32 :: "string \<Rightarrow> parse_error + int" where
  "stringToInt32 = stringToInt 32"

text \<open>Modelled from the spec: \<open>ConverterUtils::stringToInt64\<close>, whose body is missing.\<close>

definition stringToInt64 :: "string \<Rightarrow> parse_error + int" where
  "stringToInt64 = stringToInt 64"

text \<open>
  Modelled from the spec: \<open>parse(raw_text, data_kind)\<close> for the numeric kinds, whose
  body is missing; the parsed number is carried as a real whatever the kind.
\<close>

definition parse_number :: "data_kind \<Rightarrow> string \<Rightarrow> parse_error + real" where
  "parse_number kind raw =
     (case kind of
        Float \<Rightarrow> stringToFloat raw
      | Int32 \<Rightarrow> map_sum id real_of_int (stringToInt32 raw)
      | Int64 \<Rightarrow> map_sum id real_of_int (stringToInt64 raw)
      | _ \<Rightarrow> Inl ParseError)"

text \<open>
  Modelled from the spec: \<open>ConverterUtils::applyLinearScaling\<close>, whose body is missing;
  documented as value * multiplier + offset.
\<close>

definition applyLinearScaling :: "real \<Rightarrow> real \<Rightarrow> real \<Rightarrow> real" where
  "applyLinearScaling v multiplier offset = v * multiplier + offset"

text \<open>
  Modelled from the spec: \<open>ConverterUtils::clampFloat\<close>, whose body is missing; values
  below the minimum are set to the minimum, values above the maximum to the maximum.
\<close>

definition clampFloat :: "real \<Rightarrow> real \<Rightarrow> real \<Rightarrow> real" where
  "clampFloat v minVal maxVal =
     (if v < minVal then minVal else if v > maxVal then maxVal else v)"

text \<open>
  Modelled from the spec: \<open>scale(value, multiplier, offset)\<close> with the multiplier and
  offset of a rule; the function that applies a rule is missing.
\<close>

definition scale :: "rule \<Rightarrow> real \<Rightarrow> real" where
  "scale r v = applyLinearScaling v (unit_multiplier r) (unit_offset r)"

text \<open>
  Modelled from the spec: \<open>clamp(value, min, max)\<close> with the bounds of a rule; the
  function that applies a rule is missing. A bound that is absent does not constrain
  the value.
\<close>

definition clamp :: "rule \<Rightarrow> real \<Rightarrow> real" where
  "clamp r v =
     (case (min_value r, max_value r) of
        (Some lo, Some hi) \<Rightarrow> clampFloat v lo hi
      | (Some lo, None) \<Rightarrow> (if v < lo then lo else v)
      | (None, Some hi) \<Rightarrow> (if v > hi then hi else v)
      | (None, None) \<Rightarrow> v)"

text \<open>
  Modelled from the spec: the body of a generated conversion function of
  \<open>AndroidVssConverter\<close>, which is missing, after the template excerpt kept with the
  sources: the parsed value is multiplied when the multiplier of the rule is not 1,
  the offset is added when it is not 0, then the value is raised to the minimum when
  the rule has one and lowered to the maximum when the rule has one.
\<close>

definition convert :: "rule \<Rightarrow> string \<Rightarrow> parse_error + real" where
  "convert r raw =
     (case parse_number (data_kind r) raw of
        Inl e \<Rightarrow> Inl e
      | Inr floatValue \<Rightarrow>
          let floatValue = (if unit_multiplier r \<noteq> 1 then floatValue * unit_multiplier r
                            else floatValue);
              floatValue = (if unit_offset r \<noteq> 0 then floatValue + unit_offset r
                            else floatValue);
              floatValue = (case min_value r of
                              None \<Rightarrow> floatValue
                            | Some lo \<Rightarrow> if floatValue < lo then lo else floatValue);
              floatValue = (case max_value r of
                              None \<Rightarrow> floatValue
                            | Some hi \<Rightarrow> if floatValue > hi then hi else floatValue)
          in Inr floatValue)"

text \<open>
  Modelled from the spec: the invariant of a rule, whose validation at registry
  construction is missing: the minimum is not above the maximum when both are present.
\<close>

definition bounds_ordered :: "rule \<Rightarrow> bool" where
  "bounds_ordered r =
     (case (min_value r, max_value r) of (Some lo, Some hi) \<Rightarrow> lo \<le> hi | _ \<Rightarrow> True)"

text \<open>
  Modelled from the spec: \<open>AndroidVssConverter::convertVssToVhal\<close>, whose body is
  missing. The registry maps a signal path to its rule; a path without a rule makes
  the converter return \<open>false\<close>, otherwise the conversion of the rule decides.
\<close>

definition registry_convertVssToVhal ::
  "(string \<rightharpoonup> 'r) \<Rightarrow> ('r \<Rightarrow> string \<Rightarrow> 'v option outcome) \<Rightarrow>
     string \<Rightarrow> string \<Rightarrow> 'v option outcome" where
  "registry_convertVssToVhal registry convertByRule vssPath vssValue =
     (case registry vssPath of
        None \<Rightarrow> Returns None
      | Some r \<Rightarrow> convertByRule r vssValue)"

section \<open>A small configuration on which the model is run\<close>

text \<open>
  One rule, the speed signal of the specification's scenario (metres per second to
  kilometres per hour, clamped to 0..300), a registry holding it, and collaborators
  whose store maps (property, area) to the converted number. They serve to evaluate
  the definitions on concrete messages.
\<close>

definition speed_rule :: rule where
  "speed_rule =
     \<lparr>path = ''Vehicle.Speed'', target_id = 291504647, area_id = 0, data_kind = Float,
      unit_multiplier = 36 / 10, unit_offset = 0,
      min_value = Some 0, max_value = Some 300\<rparr>"

definition example_registry :: "string \<rightharpoonup> rule" where
  "example_registry = [''Vehicle.Speed'' \<mapsto> speed_rule]"

definition example_convertByRule :: "rule \<Rightarrow> string \<Rightarrow> ((int \<times> int) \<times> real) option outcome" where
  "example_convertByRule r raw =
     (case convert r raw of
        Inl e \<Rightarrow> Throws
      | Inr v \<Rightarrow> Returns (Some ((target_id r, area_id r), v)))"

definition example_collaborators ::
  "((int \<times> int) \<times> real, (int \<times> int) \<rightharpoonup> real) collaborators" where
  "example_collaborators =
     \<lparr>convertVssToVhal = registry_convertVssToVhal example_registry example_convertByRule,
      doSetProperty = (\<lambda>propValue s. (s(fst propValue \<mapsto> snd propValue), Returns OK)),
      mHal = None\<rparr>"

definition example_emulator :: "((int \<times> int) \<rightharpoonup> real) VssVehicleEmulator" where
  "example_emulator =
     \<lparr>mInitialized = True, mActive = True, mMessagesProcessed = 0,
      mMessagesConverted = 0, mConversionErrors = 0, propertyStore = Map.empty\<rparr>"

text \<open>A listener that is running with a peer connected, and one that was never started.\<close>

definition connected_listener :: VssSocketComm where
  "connected_listener =
     \<lparr>mProcessor = True, mRunning = True, mReadThread = True, mPort = 33445,
      mServerSocket = 3, mClientSocket = 4, mHasActiveConnection = True,
      delivered = [], calls = []\<rparr>"

section \<open>Properties of the string operations\<close>

lemma find_first_not_of_None: "find_first_not_of cs s = None \<longleftrightarrow> set s \<subseteq> set cs"
  by (induction s) auto

lemma find_first_not_of_Some:
  "find_first_not_of cs s = Some i \<Longrightarrow>
     drop i s = dropWhile (\<lambda>ch. ch \<in> set cs) s \<and> i < length s"
  by (induction s arbitrary: i) (auto split: if_splits)

lemma erase_leading_eq: "erase_leading s = dropWhile (\<lambda>ch. ch \<in> set whitespace) s"
proof (cases "find_first_not_of whitespace s")
  case None
  then have "set s \<subseteq> set whitespace" by (simp add: find_first_not_of_None)
  then have d: "dropWhile (\<lambda>ch. ch \<in> set whitespace) s = []" by (auto simp: subset_iff)
  show ?thesis unfolding erase_leading_def None d by simp
next
  case (Some i)
  with find_first_not_of_Some[OF Some] show ?thesis by (simp add: erase_leading_def)
qed

lemma erase_trailing_eq:
  "erase_trailing s = rev (dropWhile (\<lambda>ch. ch \<in> set whitespace) (rev s))"
proof (cases "find_first_not_of whitespace (rev s)")
  case None
  then have "set (rev s) \<subseteq> set whitespace" by (simp add: find_first_not_of_None)
  then have "dropWhile (\<lambda>ch. ch \<in> set whitespace) (rev s) = []" by (auto simp: subset_iff)
  with None show ?thesis by (simp add: erase_trailing_def find_last_not_of_def)
next
  case (Some i)
  from find_first_not_of_Some[OF Some]
  have d: "drop i (rev s) = dropWhile (\<lambda>ch. ch \<in> set whitespace) (rev s)"
    and l: "i < length s" by auto
  have "rev (drop i (rev s)) = take (length s - i) s" by (simp add: rev_drop)
  moreover have "length s - 1 - i + 1 = length s - i" using l by arith
  ultimately show ?thesis using Some d by (simp add: erase_trailing_def find_last_not_of_def)
qed

lemma strip_code: "erase_leading (erase_trailing s) = strip s"
  by (simp add: strip_def erase_leading_eq erase_trailing_eq)

lemma strip_Nil: "strip [] = []"
  by (simp add: strip_def)

lemma find_char_None: "find_char c s = None \<longleftrightarrow> c \<notin> set s"
  by (induction s) auto

lemma find_char_first: "c \<notin> set pre \<Longrightarrow> find_char c (pre @ c # post) = Some (length pre)"
  by (induction pre) auto

section \<open>Properties of the orchestrator\<close>

lemma parse_split:
  assumes "CHR ''='' \<notin> set pre"
  shows "parseVssMessage (pre @ CHR ''='' # post) =
           (if strip pre = [] \<or> strip post = [] then None else Some (strip pre, strip post))"
proof (cases "pre = [] \<or> post = []")
  case True
  then show ?thesis using find_char_first[OF assms, of post]
    by (auto simp: parseVssMessage_def strip_Nil)
next
  case False
  then show ?thesis using find_char_first[OF assms, of post]
    by (simp add: parseVssMessage_def strip_code Let_def)
qed

lemma parse_no_equals: "CHR ''='' \<notin> set message \<Longrightarrow> parseVssMessage message = None"
  by (simp add: parseVssMessage_def find_char_None[symmetric])

lemma process_inactive: "\<not> isActive e \<Longrightarrow> processVssMessage env message e = e"
  by (simp add: processVssMessage_def)

lemma process_malformed:
  assumes "isActive e" "parseVssMessage message = None"
  shows "processVssMessage env message e = count_error (count_processed e)"
  using assms by (simp add: processVssMessage_def)

lemma store_same: "count_processed e\<lparr>propertyStore := propertyStore (count_processed e)\<rparr> = count_processed e"
  by simp

lemma process_active_cases:
  assumes "isActive e"
  shows "(\<exists>s'. processVssMessage env message e =
                 count_converted (count_processed e\<lparr>propertyStore := s'\<rparr>))
       \<or> (\<exists>s'. processVssMessage env message e =
                 count_error (count_processed e\<lparr>propertyStore := s'\<rparr>))"
proof (cases "parseVssMessage message")
  case None
  with assms show ?thesis by (metis process_malformed store_same)
next
  case (Some pv)
  obtain p v where pv: "pv = (p, v)" by (cases pv)
  show ?thesis
  proof (cases "convertVssToVhal env p v")
    case Throws
    have "processVssMessage env message e = count_error (count_processed e)"
      using assms Some pv Throws by (simp add: processVssMessage_def)
    then show ?thesis by (metis store_same)
  next
    case (Returns r)
    show ?thesis
    proof (cases r)
      case None
      have "processVssMessage env message e = count_error (count_processed e)"
        using assms Some pv Returns None by (simp add: processVssMessage_def)
      then show ?thesis by (metis store_same)
    next
      case (Some propValue)
      obtain s' b where
        u: "updateVhalProperty env propValue (propertyStore (count_processed e)) = (s', b)"
        by (cases "updateVhalProperty env propValue (propertyStore (count_processed e))")
      show ?thesis
        using assms \<open>parseVssMessage message = Some pv\<close> pv Returns Some u
        by (cases b) (auto simp: processVssMessage_def)
    qed
  qed
qed

lemma process_unknown:
  assumes "isActive e" "parseVssMessage message = Some (vssPath, vssValue)"
    and "convertVssToVhal env vssPath vssValue = Returns None"
  shows "processVssMessage env message e = count_error (count_processed e)"
  using assms by (simp add: processVssMessage_def)

lemma isActive_counted [simp]:
  "isActive (count_error e) = isActive e"
  "isActive (count_converted e) = isActive e"
  "isActive (count_processed e) = isActive e"
  "isActive (e\<lparr>propertyStore := s\<rparr>) = isActive e"
  by (simp_all add: isActive_def count_error_def count_converted_def count_processed_def)

lemma parse_example_unknown: "parseVssMessage ''Foo.Bar=1'' = Some (''Foo.Bar'', ''1'')"
  using parse_split[of "''Foo.Bar''" "''1''"] by (simp add: strip_def whitespace_def)

lemma parse_example_speed:
  "parseVssMessage ''Vehicle.Speed=33.33'' = Some (''Vehicle.Speed'', ''33.33'')"
  using parse_split[of "''Vehicle.Speed''" "''33.33''"] by (simp add: strip_def whitespace_def)

text \<open>
  C3. The message is split at the first \<open>=\<close>: a message without \<open>=\<close> is rejected; a
  message whose first \<open>=\<close> stands between \<open>pre\<close> and \<open>post\<close> is rejected when the \<open>=\<close>
  is at position 0 (\<open>pre\<close> empty) or is the final character (\<open>post\<close> empty) or when
  \<open>pre\<close> or \<open>post\<close> is empty after trimming, and otherwise yields the trimmed \<open>pre\<close> as
  path and the trimmed \<open>post\<close> as value. A rejected message that reaches an active
  emulator is dropped: the processed counter and the error counter go up by one, the
  converted counter and the property store stay as they were.
\<close>

theorem malformed_message_dropped:
  "(CHR ''='' \<notin> set m0 \<longrightarrow> parseVssMessage m0 = None) \<and>
   (CHR ''='' \<notin> set pre \<longrightarrow>
      parseVssMessage (pre @ CHR ''='' # post) =
        (if pre = [] \<or> post = [] \<or> strip pre = [] \<or> strip post = [] then None
         else Some (strip pre, strip post))) \<and>
   (isActive e \<and> parseVssMessage message = None \<longrightarrow>
      mMessagesProcessed (processVssMessage env message e) = mMessagesProcessed e + 1 \<and>
      mConversionErrors (processVssMessage env message e) = mConversionErrors e + 1 \<and>
      mMessagesConverted (processVssMessage env message e) = mMessagesConverted e \<and>
      propertyStore (processVssMessage env message e) = propertyStore e)"
proof (intro conjI impI)
  assume "CHR ''='' \<notin> set m0"
  then show "parseVssMessage m0 = None" by (rule parse_no_equals)
next
  assume "CHR ''='' \<notin> set pre"
  then show "parseVssMessage (pre @ CHR ''='' # post) =
        (if pre = [] \<or> post = [] \<or> strip pre = [] \<or> strip post = [] then None
         else Some (strip pre, strip post))"
    by (auto simp: parse_split strip_Nil)
next
  assume a: "isActive e \<and> parseVssMessage message = None"
  then have p: "processVssMessage env message e = count_error (count_processed e)"
    by (simp add: process_malformed)
  show "mMessagesProcessed (processVssMessage env message e) = mMessagesProcessed e + 1"
    by (simp add: p count_error_def count_processed_def)
  show "mConversionErrors (processVssMessage env message e) = mConversionErrors e + 1"
    by (simp add: p count_error_def count_processed_def)
  show "mMessagesConverted (processVssMessage env message e) = mMessagesConverted e"
    by (simp add: p count_error_def count_processed_def)
  show "propertyStore (processVssMessage env message e) = propertyStore e"
    by (simp add: p count_error_def count_processed_def)
qed

theorem malformed_message_dropped_witness:
  "CHR ''='' \<notin> set ''Vehicle.Speed'' \<and> parseVssMessage ''Vehicle.Speed'' = None \<and>
   CHR ''='' \<notin> set ''path'' \<and> parseVssMessage ''path='' = None \<and>
   isActive example_emulator \<and> parseVssMessage ''=value'' = None \<and>
   mConversionErrors (processVssMessage example_collaborators ''=value'' example_emulator) = 1 \<and>
   propertyStore (processVssMessage example_collaborators ''=value'' example_emulator) = Map.empty"
proof -
  have h: "isActive example_emulator" by (simp add: isActive_def example_emulator_def)
  have n: "parseVssMessage ''=value'' = None" by (simp add: parseVssMessage_def)
  show ?thesis
    using malformed_message_dropped[of "''Vehicle.Speed''" "''path''" "[]" example_emulator
        "''=value''" example_collaborators] h n
    by (simp add: example_emulator_def)
qed

text \<open>
  C4. A well-formed message whose path has no rule in the registry makes the converter
  return \<open>false\<close>; the emulator then counts the message as processed and as an error
  (unknown signals are counted by the conversion-error counter, the only error counter
  the emulator has), leaves the property store and the converted counter unchanged,
  stays active, and counts the next message as processed as well.
\<close>

theorem unknown_signal_counted:
  assumes "isActive e"
    and "parseVssMessage message = Some (vssPath, vssValue)"
    and "registry vssPath = None"
    and "convertVssToVhal env = registry_convertVssToVhal registry convertByRule"
  shows "mConversionErrors (processVssMessage env message e) = mConversionErrors e + 1 \<and>
         mMessagesProcessed (processVssMessage env message e) = mMessagesProcessed e + 1 \<and>
         mMessagesConverted (processVssMessage env message e) = mMessagesConverted e \<and>
         propertyStore (processVssMessage env message e) = propertyStore e \<and>
         isActive (processVssMessage env message e) \<and>
         mMessagesProcessed (processVssMessage env next_message (processVssMessage env message e))
           = mMessagesProcessed e + 2"
proof -
  have "convertVssToVhal env vssPath vssValue = Returns None"
    using assms(3,4) by (simp add: registry_convertVssToVhal_def)
  with assms(1,2) have p: "processVssMessage env message e = count_error (count_processed e)"
    by (rule process_unknown)
  have act: "isActive (count_error (count_processed e))" using assms(1) by simp
  have nxt: "mMessagesProcessed (processVssMessage env next_message (count_error (count_processed e)))
              = mMessagesProcessed e + 2"
    using process_active_cases[OF act, of env next_message]
    by (auto simp: count_error_def count_processed_def count_converted_def)
  show ?thesis using assms(1) nxt
    by (simp add: p) (simp add: count_error_def count_processed_def)
qed

theorem unknown_signal_counted_witness:
  "isActive example_emulator \<and>
   parseVssMessage ''Foo.Bar=1'' = Some (''Foo.Bar'', ''1'') \<and>
   example_registry ''Foo.Bar'' = None \<and>
   mConversionErrors (processVssMessage example_collaborators ''Foo.Bar=1'' example_emulator) = 1 \<and>
   propertyStore (processVssMessage example_collaborators ''Foo.Bar=1'' example_emulator) = Map.empty \<and>
   mMessagesProcessed (processVssMessage example_collaborators ''Vehicle.Speed=33.33''
      (processVssMessage example_collaborators ''Foo.Bar=1'' example_emulator)) = 2"
proof -
  have h: "isActive example_emulator" by (simp add: isActive_def example_emulator_def)
  have r: "example_registry ''Foo.Bar'' = None" by (simp add: example_registry_def)
  have c: "convertVssToVhal example_collaborators =
             registry_convertVssToVhal example_registry example_convertByRule"
    by (simp add: example_collaborators_def)
  show ?thesis
    using unknown_signal_counted[OF h parse_example_unknown r c, of "''Vehicle.Speed=33.33''"]
      h r parse_example_unknown
    by (simp add: example_emulator_def)
qed

text \<open>
  C8. While the emulator is active, a call of \<open>processVssMessage\<close> raises the processed
  counter by exactly one and exactly one of the converted and error counters by exactly
  one, whichever branch is taken, exceptions included. So the equation processed =
  converted + errors is kept by every call, and no call lowers a counter.
\<close>

theorem processVssMessage_counters:
  "(isActive e \<longrightarrow>
      mMessagesProcessed (processVssMessage env message e) = mMessagesProcessed e + 1 \<and>
      ((mMessagesConverted (processVssMessage env message e) = mMessagesConverted e + 1 \<and>
        mConversionErrors (processVssMessage env message e) = mConversionErrors e) \<or>
       (mMessagesConverted (processVssMessage env message e) = mMessagesConverted e \<and>
        mConversionErrors (processVssMessage env message e) = mConversionErrors e + 1))) \<and>
   (mMessagesProcessed e = mMessagesConverted e + mConversionErrors e \<longrightarrow>
      mMessagesProcessed (processVssMessage env message e) =
        mMessagesConverted (processVssMessage env message e) +
        mConversionErrors (processVssMessage env message e)) \<and>
   mMessagesProcessed e \<le> mMessagesProcessed (processVssMessage env message e) \<and>
   mMessagesConverted e \<le> mMessagesConverted (processVssMessage env message e) \<and>
   mConversionErrors e \<le> mConversionErrors (processVssMessage env message e)"
proof (cases "isActive e")
  case False
  then show ?thesis by (simp add: process_inactive)
next
  case True
  from process_active_cases[OF True, of env message] show ?thesis
    by (auto simp: count_error_def count_processed_def count_converted_def)
qed

theorem processVssMessage_counters_witness:
  "isActive example_emulator \<and>
   mMessagesProcessed example_emulator =
     mMessagesConverted example_emulator + mConversionErrors example_emulator \<and>
   mMessagesProcessed (processVssMessage example_collaborators ''Vehicle.Speed=33.33'' example_emulator) = 1 \<and>
   mMessagesProcessed (processVssMessage example_collaborators ''Vehicle.Speed=33.33'' example_emulator) =
     mMessagesConverted (processVssMessage example_collaborators ''Vehicle.Speed=33.33'' example_emulator) +
     mConversionErrors (processVssMessage example_collaborators ''Vehicle.Speed=33.33'' example_emulator)"
proof -
  have h: "isActive example_emulator" by (simp add: isActive_def example_emulator_def)
  have i: "mMessagesProcessed example_emulator =
     mMessagesConverted example_emulator + mConversionErrors example_emulator"
    by (simp add: example_emulator_def)
  show ?thesis
    using processVssMessage_counters[of example_emulator example_collaborators
        "''Vehicle.Speed=33.33''"] h i
    by (simp add: example_emulator_def)
qed

text \<open>
  C9. When the emulator is not active, because it was never initialised or has been
  shut down, \<open>processVssMessage\<close> returns the emulator as it was: the three counters
  and the property store are untouched.
\<close>

theorem inactive_message_ignored:
  assumes "\<not> mInitialized e \<or> \<not> mActive e"
  shows "processVssMessage env message e = e"
  using assms by (auto simp: processVssMessage_def isActive_def)

theorem inactive_message_ignored_witness:
  "\<not> mActive (example_emulator\<lparr>mActive := False\<rparr>) \<and>
   processVssMessage example_collaborators ''Vehicle.Speed=33.33''
     (example_emulator\<lparr>mActive := False\<rparr>) = example_emulator\<lparr>mActive := False\<rparr>"
  using inactive_message_ignored[of "example_emulator\<lparr>mActive := False\<rparr>"
      example_collaborators "''Vehicle.Speed=33.33''"]
  by simp


section \<open>Properties of the listener\<close>

text \<open>
  \<open>extends c c'\<close>: the log of \<open>c'\<close> is the log of \<open>c\<close> followed by calls none of which
  opens an outbound connection.
\<close>

lemma new_calls_append: "calls c' = calls c @ xs \<Longrightarrow> new_calls c c' = xs"
  by (simp add: new_calls_def)

lemma extends_refl: "\<exists>xs. calls c = calls c @ xs \<and> list_all (\<lambda>x. \<not> outbound x) xs"
  by simp

lemma extends_trans:
  assumes "\<exists>xs. calls c1 = calls c @ xs \<and> list_all (\<lambda>x. \<not> outbound x) xs"
    and "\<exists>ys. calls c2 = calls c1 @ ys \<and> list_all (\<lambda>x. \<not> outbound x) ys"
  shows "\<exists>zs. calls c2 = calls c @ zs \<and> list_all (\<lambda>x. \<not> outbound x) zs"
proof -
  from assms(1) obtain xs where x: "calls c1 = calls c @ xs" "list_all (\<lambda>x. \<not> outbound x) xs"
    by blast
  from assms(2) obtain ys where y: "calls c2 = calls c1 @ ys" "list_all (\<lambda>x. \<not> outbound x) ys"
    by blast
  have "calls c2 = calls c @ (xs @ ys)" using x(1) y(1) by simp
  moreover have "list_all (\<lambda>x. \<not> outbound x) (xs @ ys)" using x(2) y(2) by simp
  ultimately show ?thesis by blast
qed

lemma extends_processMessage:
  "calls (processMessage message c) = calls c"
  by (simp add: processMessage_def)

lemma extends_acceptConnection:
  "acceptConnection c as = Some (b, c', as') \<Longrightarrow>
     \<exists>xs. calls c' = calls c @ xs \<and> list_all (\<lambda>x. \<not> outbound x) xs"
  by (auto simp: acceptConnection_def sys_def Let_def
           split: if_splits list.splits accept_result.splits)

lemma extends_readMessage_loop:
  "readMessage_loop c message rs = Some (m, c', rs') \<Longrightarrow>
     \<exists>xs. calls c' = calls c @ xs \<and> list_all (\<lambda>x. \<not> outbound x) xs"
proof (induction rs arbitrary: c message)
  case Nil
  then show ?case by (auto split: if_splits)
next
  case (Cons r rs)
  let ?c1 = "sys (Sys_recv (mClientSocket c)) c"
  have step: "\<exists>xs. calls ?c1 = calls c @ xs \<and> list_all (\<lambda>x. \<not> outbound x) xs"
    by (simp add: sys_def)
  have drop: "\<exists>xs. calls (dropClient ?c1) = calls c @ xs \<and> list_all (\<lambda>x. \<not> outbound x) xs"
    by (simp add: sys_def dropClient_def)
  show ?case
  proof (cases "mRunning c \<and> mHasActiveConnection c")
    case False
    with Cons.prems show ?thesis by auto
  next
    case True
    from Cons.prems True
    consider (rec) msg where "readMessage_loop ?c1 msg rs = Some (m, c', rs')"
      | (returned) "c' = ?c1" | (dropped) "c' = dropClient ?c1"
      by (auto simp: Let_def split: recv_result.splits if_splits option.splits)
    then show ?thesis
    proof cases
      case rec
      from Cons.IH[OF rec] step show ?thesis by (rule extends_trans[rotated])
    next
      case returned
      with step show ?thesis by simp
    next
      case dropped
      with drop show ?thesis by simp
    qed
  qed
qed

lemma extends_readMessage:
  "readMessage c rs = Some (m, c', rs') \<Longrightarrow>
     \<exists>xs. calls c' = calls c @ xs \<and> list_all (\<lambda>x. \<not> outbound x) xs"
  by (auto simp: readMessage_def split: if_splits dest: extends_readMessage_loop)

lemma extends_readLoop:
  "\<exists>xs. calls (listener_of (readLoop n c as rs)) = calls c @ xs \<and>
        list_all (\<lambda>x. \<not> outbound x) xs"
proof (induction n arbitrary: c as rs)
  case 0
  then show ?case by simp
next
  case (Suc n)
  have after_read: "\<exists>xs. calls (listener_of
            (case readMessage d rs of
               None \<Rightarrow> Waiting d
             | Some (message, c2, rs') \<Rightarrow>
                 if message \<noteq> [] then readLoop n (processMessage message c2) bs rs'
                 else readLoop n c2 bs rs')) = calls d @ xs \<and>
          list_all (\<lambda>x. \<not> outbound x) xs" for d bs
  proof (cases "readMessage d rs")
    case None
    then show ?thesis by simp
  next
    case (Some t)
    obtain message c2 rs' where t: "t = (message, c2, rs')" by (cases t)
    from Some t have e1: "\<exists>xs. calls c2 = calls d @ xs \<and> list_all (\<lambda>x. \<not> outbound x) xs"
      by (auto dest: extends_readMessage)
    show ?thesis
    proof (cases "message = []")
      case True
      from e1 Suc.IH[of c2 bs rs'] have
        "\<exists>zs. calls (listener_of (readLoop n c2 bs rs')) = calls d @ zs \<and>
              list_all (\<lambda>x. \<not> outbound x) zs"
        by (rule extends_trans)
      with Some t True show ?thesis by simp
    next
      case False
      have e2: "\<exists>xs. calls (processMessage message c2) = calls d @ xs \<and>
                     list_all (\<lambda>x. \<not> outbound x) xs"
        using e1 by (simp add: extends_processMessage)
      from e2 Suc.IH[of "processMessage message c2" bs rs'] have
        "\<exists>zs. calls (listener_of (readLoop n (processMessage message c2) bs rs')) = calls d @ zs \<and>
              list_all (\<lambda>x. \<not> outbound x) zs"
        by (rule extends_trans)
      with Some t False show ?thesis by simp
    qed
  qed
  show ?case
  proof (cases "mRunning c")
    case False
    then show ?thesis by simp
  next
    case run: True
    show ?thesis
    proof (cases "mHasActiveConnection c")
      case True
      with run after_read[of c as] show ?thesis by simp
    next
      case False
      show ?thesis
      proof (cases "acceptConnection c as")
        case None
        with run False show ?thesis by simp
      next
        case (Some t)
        obtain b c1 as' where t: "t = (b, c1, as')" by (cases t)
        from Some t extends_acceptConnection[of c as b c1 as']
        have e1: "\<exists>xs. calls c1 = calls c @ xs \<and> list_all (\<lambda>x. \<not> outbound x) xs" by simp
        show ?thesis
        proof (cases b)
          case True
          from e1 after_read[of c1 as'] have
            "\<exists>zs. calls (listener_of
            (case readMessage c1 rs of
               None \<Rightarrow> Waiting c1
             | Some (message, c2, rs') \<Rightarrow>
                 if message \<noteq> [] then readLoop n (processMessage message c2) as' rs'
                 else readLoop n c2 as' rs')) = calls c @ zs \<and>
              list_all (\<lambda>x. \<not> outbound x) zs"
            by (rule extends_trans)
          with run False Some t True show ?thesis by simp
        next
          case nb: False
          have e2: "\<exists>xs. calls (sys Thread_sleep c1) = calls c @ xs \<and>
                         list_all (\<lambda>x. \<not> outbound x) xs"
            using e1 by (auto simp: sys_def)
          from e2 Suc.IH[of "sys Thread_sleep c1" as' rs] have
            "\<exists>zs. calls (listener_of (readLoop n (sys Thread_sleep c1) as' rs)) = calls c @ zs \<and>
              list_all (\<lambda>x. \<not> outbound x) zs"
            by (rule extends_trans)
          with run False Some t nb show ?thesis by simp
        qed
      qed
    qed
  qed
qed

lemma readLoop_never_connects:
  "list_all (\<lambda>x. \<not> outbound x) (new_calls c (listener_of (readLoop n c as rs)))"
  using extends_readLoop[of n c as rs] by (auto simp: new_calls_def)

lemma acceptConnection_ok:
  assumes "0 \<le> mServerSocket c" "0 \<le> fd"
  shows "acceptConnection c (Accept_fd fd # as) =
           Some (True,
                 (sys (Sys_setsockopt fd SO_RCVTIMEO)
                    ((sys (Sys_accept (mServerSocket c)) c)\<lparr>mClientSocket := fd\<rparr>))
                   \<lparr>mHasActiveConnection := True\<rparr>,
                 as)"
  using assms by (simp add: acceptConnection_def Let_def)

lemma readMessage_loop_quiet:
  assumes "list_all quiet pre" and "mRunning c" and "mHasActiveConnection c"
    and "CHR 0x0A \<notin> set message"
  shows "\<exists>message'. CHR 0x0A \<notin> set message' \<and>
           readMessage_loop c message (pre @ rs) =
             readMessage_loop
               (c\<lparr>calls := calls c @ replicate (length pre) (Sys_recv (mClientSocket c))\<rparr>)
               message' rs"
  using assms
proof (induction pre arbitrary: c message)
  case Nil
  then show ?case by auto
next
  case (Cons r pre)
  let ?c1 = "sys (Sys_recv (mClientSocket c)) c"
  have c1: "mRunning ?c1" "mHasActiveConnection ?c1" "mClientSocket ?c1 = mClientSocket c"
    using Cons.prems by (simp_all add: sys_def)
  have q: "list_all quiet pre" and qr: "quiet r" using Cons.prems(1) by simp_all
  have upd: "?c1\<lparr>calls := calls ?c1 @ replicate (length pre) (Sys_recv (mClientSocket ?c1))\<rparr>
           = c\<lparr>calls := calls c @ replicate (length (r # pre)) (Sys_recv (mClientSocket c))\<rparr>"
    by (simp add: sys_def)
  show ?case
  proof (cases r)
    case (Recv_bytes bytes)
    let ?m = "message @ takeWhile (\<lambda>ch. ch \<noteq> CHR 0x00) bytes"
    from qr Recv_bytes have b: "bytes \<noteq> []" "CHR 0x0A \<notin> set bytes" by simp_all
    have nl: "CHR 0x0A \<notin> set ?m"
      using Cons.prems(4) b(2) by (auto dest: set_takeWhileD)
    then have f: "find_char CHR 0x0A ?m = None" by (simp only: find_char_None not_False_eq_True)
    have step: "readMessage_loop c message ((r # pre) @ rs) = readMessage_loop ?c1 ?m (pre @ rs)"
      using Cons.prems(2,3) b(1) f by (simp add: Recv_bytes Let_def)
    from Cons.IH[OF q c1(1,2) nl] obtain message' where
      "CHR 0x0A \<notin> set message'"
      "readMessage_loop ?c1 ?m (pre @ rs) =
         readMessage_loop
           (?c1\<lparr>calls := calls ?c1 @ replicate (length pre) (Sys_recv (mClientSocket ?c1))\<rparr>)
           message' rs"
      by blast
    then show ?thesis unfolding step upd by blast
  next
    case Recv_closed
    with qr show ?thesis by simp
  next
    case (Recv_fail e)
    from qr Recv_fail have e: "e = EWOULDBLOCK \<or> e = EAGAIN" by simp
    have step: "readMessage_loop c message ((r # pre) @ rs) = readMessage_loop ?c1 message (pre @ rs)"
      using Cons.prems(2,3) e by (auto simp: Recv_fail Let_def)
    from Cons.IH[OF q c1(1,2) Cons.prems(4)] obtain message' where
      "CHR 0x0A \<notin> set message'"
      "readMessage_loop ?c1 message (pre @ rs) =
         readMessage_loop
           (?c1\<lparr>calls := calls ?c1 @ replicate (length pre) (Sys_recv (mClientSocket ?c1))\<rparr>)
           message' rs"
      by blast
    then show ?thesis unfolding step upd by blast
  qed
qed

lemma readMessage_quiet_eof:
  assumes "list_all quiet pre" and "mRunning c" and "mHasActiveConnection c"
    and "0 \<le> mClientSocket c"
  shows "readMessage c (pre @ Recv_closed # rs) =
           Some ([],
                 c\<lparr>mClientSocket := - 1, mHasActiveConnection := False,
                   calls := calls c @ replicate (Suc (length pre)) (Sys_recv (mClientSocket c)) @
                              [Sys_close (mClientSocket c)]\<rparr>,
                 rs)"
proof -
  let ?d = "c\<lparr>calls := calls c @ replicate (length pre) (Sys_recv (mClientSocket c))\<rparr>"
  from readMessage_loop_quiet[OF assms(1-3), of "[]" "Recv_closed # rs"] obtain message' where
    l: "readMessage_loop c [] (pre @ Recv_closed # rs) = readMessage_loop ?d message' (Recv_closed # rs)"
    by auto
  have "readMessage_loop ?d message' (Recv_closed # rs) =
          Some ([], dropClient (sys (Sys_recv (mClientSocket ?d)) ?d), rs)"
    using assms(2,3) by simp
  also have "dropClient (sys (Sys_recv (mClientSocket ?d)) ?d) =
      c\<lparr>mClientSocket := - 1, mHasActiveConnection := False,
        calls := calls c @ replicate (Suc (length pre)) (Sys_recv (mClientSocket c)) @
                   [Sys_close (mClientSocket c)]\<rparr>"
    by (simp add: dropClient_def sys_def replicate_append_same)
  finally show ?thesis using assms(3,4) l by (simp add: readMessage_def)
qed

lemma readLoop_accept_failures:
  assumes "mRunning c" and "\<not> mHasActiveConnection c" and "0 \<le> mServerSocket c"
    and "mClientSocket c = - 1"
  shows "readLoop (length es + n) c (map Accept_fail es @ as) rs =
           readLoop n
             (c\<lparr>calls := calls c @
                  concat (map (\<lambda>e. [Sys_accept (mServerSocket c), Thread_sleep]) es)\<rparr>)
             as rs"
  using assms
proof (induction es arbitrary: c)
  case Nil
  then show ?case by simp
next
  case (Cons e es)
  let ?c1 = "c\<lparr>calls := calls c @ [Sys_accept (mServerSocket c), Thread_sleep]\<rparr>"
  have acc: "acceptConnection c (Accept_fail e # map Accept_fail es @ as) =
               Some (False, (sys (Sys_accept (mServerSocket c)) c)\<lparr>mClientSocket := - 1\<rparr>,
                     map Accept_fail es @ as)"
    using Cons.prems(3) by (simp add: acceptConnection_def Let_def)
  have same: "sys Thread_sleep ((sys (Sys_accept (mServerSocket c)) c)\<lparr>mClientSocket := - 1\<rparr>) = ?c1"
    by (rule VssSocketComm.equality) (simp_all add: sys_def Cons.prems(4))
  have step: "readLoop (length (e # es) + n) c (map Accept_fail (e # es) @ as) rs =
                readLoop (length es + n) ?c1 (map Accept_fail es @ as) rs"
    using Cons.prems(1,2) by (simp add: acc same)
  have p: "mRunning ?c1" "\<not> mHasActiveConnection ?c1" "0 \<le> mServerSocket ?c1"
    "mClientSocket ?c1 = - 1"
    using Cons.prems by simp_all
  have fin: "?c1\<lparr>calls := calls ?c1 @
                  concat (map (\<lambda>e. [Sys_accept (mServerSocket ?c1), Thread_sleep]) es)\<rparr>
           = c\<lparr>calls := calls c @
                  concat (map (\<lambda>e. [Sys_accept (mServerSocket c), Thread_sleep]) (e # es))\<rparr>"
    by simp
  show ?case unfolding step Cons.IH[OF p] fin ..
qed

lemma keeps_readMessage_loop:
  "readMessage_loop c message rs = Some (m, c', rs') \<Longrightarrow>
     mRunning c' = mRunning c \<and> mServerSocket c' = mServerSocket c"
proof (induction rs arbitrary: c message)
  case Nil
  then show ?case by (auto split: if_splits)
next
  case (Cons r rs)
  let ?c1 = "sys (Sys_recv (mClientSocket c)) c"
  show ?case
  proof (cases "mRunning c \<and> mHasActiveConnection c")
    case False
    with Cons.prems show ?thesis by auto
  next
    case True
    from Cons.prems True
    consider (again) msg where "readMessage_loop ?c1 msg rs = Some (m, c', rs')"
      | (returned) "c' = ?c1" | (dropped) "c' = dropClient ?c1"
      by (auto simp: Let_def split: recv_result.splits if_splits option.splits)
    then show ?thesis
    proof cases
      case again
      from Cons.IH[OF again] show ?thesis by (simp add: sys_def)
    next
      case returned
      then show ?thesis by (simp add: sys_def)
    next
      case dropped
      then show ?thesis by (simp add: sys_def dropClient_def)
    qed
  qed
qed

lemma keeps_readMessage:
  "readMessage c rs = Some (m, c', rs') \<Longrightarrow>
     mRunning c' = mRunning c \<and> mServerSocket c' = mServerSocket c"
  by (auto simp: readMessage_def split: if_splits dest: keeps_readMessage_loop)

lemma keeps_acceptConnection:
  "acceptConnection c as = Some (b, c', as') \<Longrightarrow>
     mRunning c' = mRunning c \<and> mServerSocket c' = mServerSocket c"
  by (auto simp: acceptConnection_def sys_def Let_def
           split: if_splits list.splits accept_result.splits)

lemma keeps_processMessage:
  "mRunning (processMessage message c) = mRunning c"
  "mServerSocket (processMessage message c) = mServerSocket c"
  by (simp_all add: processMessage_def)

lemma keeps_readLoop:
  "mRunning c \<Longrightarrow>
     \<not> has_exited (readLoop n c as rs) \<and>
     mRunning (listener_of (readLoop n c as rs)) \<and>
     mServerSocket (listener_of (readLoop n c as rs)) = mServerSocket c"
proof (induction n arbitrary: c as rs)
  case 0
  then show ?case by simp
next
  case (Suc n)
  have after_read:
    "\<not> has_exited
            (case readMessage d rs of
               None \<Rightarrow> Waiting d
             | Some (message, c2, rs') \<Rightarrow>
                 if message \<noteq> [] then readLoop n (processMessage message c2) bs rs'
                 else readLoop n c2 bs rs') \<and>
     mRunning (listener_of
            (case readMessage d rs of
               None \<Rightarrow> Waiting d
             | Some (message, c2, rs') \<Rightarrow>
                 if message \<noteq> [] then readLoop n (processMessage message c2) bs rs'
                 else readLoop n c2 bs rs')) \<and>
     mServerSocket (listener_of
            (case readMessage d rs of
               None \<Rightarrow> Waiting d
             | Some (message, c2, rs') \<Rightarrow>
                 if message \<noteq> [] then readLoop n (processMessage message c2) bs rs'
                 else readLoop n c2 bs rs')) = mServerSocket d"
    if d: "mRunning d" for d bs
  proof (cases "readMessage d rs")
    case None
    with d show ?thesis by simp
  next
    case (Some t)
    obtain message c2 rs' where t: "t = (message, c2, rs')" by (cases t)
    from Some t keeps_readMessage[of d rs message c2 rs'] d
    have k: "mRunning c2" "mServerSocket c2 = mServerSocket d" by simp_all
    show ?thesis
    proof (cases "message = []")
      case True
      from Suc.IH[OF k(1), of bs rs'] k(2) Some t True show ?thesis by simp
    next
      case False
      have "mRunning (processMessage message c2)" using k(1) by (simp add: keeps_processMessage)
      from Suc.IH[OF this, of bs rs'] k(2) Some t False show ?thesis
        by (simp add: keeps_processMessage)
    qed
  qed
  show ?case
  proof (cases "mHasActiveConnection c")
    case True
    with Suc.prems after_read[OF Suc.prems, of as] show ?thesis by simp
  next
    case False
    show ?thesis
    proof (cases "acceptConnection c as")
      case None
      with Suc.prems False show ?thesis by simp
    next
      case (Some t)
      obtain b c1 as' where t: "t = (b, c1, as')" by (cases t)
      from Some t keeps_acceptConnection[of c as b c1 as'] Suc.prems
      have k: "mRunning c1" "mServerSocket c1 = mServerSocket c" by simp_all
      show ?thesis
      proof (cases b)
        case True
        from after_read[OF k(1), of as'] k(2) Suc.prems False Some t True
        show ?thesis by simp
      next
        case nb: False
        have "mRunning (sys Thread_sleep c1)" using k(1) by (simp add: sys_def)
        from Suc.IH[OF this, of as' rs] k(2) Suc.prems False Some t nb
        show ?thesis by (simp add: sys_def)
      qed
    qed
  qed
qed

lemma lost_readMessage_loop:
  "readMessage_loop c message rs = Some (m, c', rs') \<Longrightarrow>
   mHasActiveConnection c \<Longrightarrow> \<not> mHasActiveConnection c' \<Longrightarrow>
     m = [] \<and> mClientSocket c' = - 1 \<and> delivered c' = delivered c"
proof (induction rs arbitrary: c message)
  case Nil
  then show ?case by (auto split: if_splits)
next
  case (Cons r rs)
  let ?c1 = "sys (Sys_recv (mClientSocket c)) c"
  have a1: "mHasActiveConnection ?c1" using Cons.prems(2) by (simp add: sys_def)
  show ?case
  proof (cases "mRunning c \<and> mHasActiveConnection c")
    case False
    with Cons.prems show ?thesis by auto
  next
    case True
    from Cons.prems(1) True
    consider (again) msg where "readMessage_loop ?c1 msg rs = Some (m, c', rs')"
      | (returned) "c' = ?c1" | (dropped) "c' = dropClient ?c1" "m = []"
      by (auto simp: Let_def split: recv_result.splits if_splits option.splits)
    then show ?thesis
    proof cases
      case again
      from Cons.IH[OF again a1 Cons.prems(3)] show ?thesis by (simp add: sys_def)
    next
      case returned
      with a1 Cons.prems(3) show ?thesis by simp
    next
      case dropped
      then show ?thesis by (simp add: sys_def dropClient_def)
    qed
  qed
qed

lemma lost_readMessage:
  assumes "readMessage c rs = Some (m, c', rs')"
    and "mHasActiveConnection c" and "\<not> mHasActiveConnection c'"
  shows "m = [] \<and> mClientSocket c' = - 1 \<and> delivered c' = delivered c"
proof (cases "mClientSocket c < 0")
  case True
  with assms show ?thesis by (simp add: readMessage_def)
next
  case False
  with assms(1,2) have "readMessage_loop c [] rs = Some (m, c', rs')"
    by (simp add: readMessage_def)
  from lost_readMessage_loop[OF this assms(2,3)] show ?thesis .
qed

text \<open>
  C6. A listener that is running with a peer connected reads end-of-stream, possibly
  after receive timeouts and with a partial record already buffered: \<open>readMessage\<close>
  returns the empty string with the client descriptor closed and the connection marked
  inactive, \<open>isRunning\<close> still holds and the listening socket is untouched; \<open>readLoop\<close>
  goes on with its next iteration, which calls \<open>accept\<close> on that same listening socket,
  again after every failed or timed-out \<open>accept\<close>, and a peer accepted there becomes the
  active connection. The calls made on the way are \<open>recv\<close>, \<open>close\<close>, \<open>accept\<close>, the
  sleep between attempts and \<open>setsockopt\<close>. Whatever the peer and the network do, a
  running listener never leaves \<open>readLoop\<close> by itself, stays running on the same
  listening socket and never opens an outbound connection; and every read that returns
  with the connection lost, by end-of-stream or by an error, returns the empty string
  and lets the loop go on.
\<close>

theorem peer_loss_returns_to_accepting:
  assumes "mRunning c" and "mHasActiveConnection c"
    and "0 \<le> mClientSocket c" and "0 \<le> mServerSocket c" and "0 \<le> fd"
    and "list_all quiet pre"
  shows "(\<exists>c1 c2.
           c1 = c\<lparr>mClientSocket := - 1, mHasActiveConnection := False,
                  calls := calls c @ replicate (Suc (length pre)) (Sys_recv (mClientSocket c)) @
                             [Sys_close (mClientSocket c)]\<rparr> \<and>
           c2 = c1\<lparr>mClientSocket := fd, mHasActiveConnection := True,
                   calls := calls c1 @
                     concat (map (\<lambda>e. [Sys_accept (mServerSocket c), Thread_sleep]) es) @
                     [Sys_accept (mServerSocket c), Sys_setsockopt fd SO_RCVTIMEO]\<rparr> \<and>
           readMessage c (pre @ Recv_closed # rs) = Some ([], c1, rs) \<and>
           readLoop (Suc n) c as (pre @ Recv_closed # rs) = readLoop n c1 as rs \<and>
           isRunning c1 \<and> \<not> mHasActiveConnection c1 \<and>
           mServerSocket c1 = mServerSocket c \<and>
           readLoop (length es + Suc n) c1 (map Accept_fail es @ Accept_fd fd # as) rs =
             (case readMessage c2 rs of
                None \<Rightarrow> Waiting c2
              | Some (message, c3, rs') \<Rightarrow>
                  if message \<noteq> [] then readLoop n (processMessage message c3) as rs'
                  else readLoop n c3 as rs') \<and>
           isRunning c2 \<and> mHasActiveConnection c2 \<and> mClientSocket c2 = fd \<and>
           mServerSocket c2 = mServerSocket c \<and>
           new_calls c c2 =
             replicate (Suc (length pre)) (Sys_recv (mClientSocket c)) @
             [Sys_close (mClientSocket c)] @
             concat (map (\<lambda>e. [Sys_accept (mServerSocket c), Thread_sleep]) es) @
             [Sys_accept (mServerSocket c), Sys_setsockopt fd SO_RCVTIMEO]) \<and>
         \<not> has_exited (readLoop k c bs qs) \<and>
         isRunning (listener_of (readLoop k c bs qs)) \<and>
         mServerSocket (listener_of (readLoop k c bs qs)) = mServerSocket c \<and>
         list_all (\<lambda>x. \<not> outbound x) (new_calls c (listener_of (readLoop k c bs qs))) \<and>
         (readMessage c rs2 = Some (m, d, rs3) \<and> \<not> mHasActiveConnection d \<longrightarrow>
            m = [] \<and> isRunning d \<and> mClientSocket d = - 1 \<and>
            mServerSocket d = mServerSocket c \<and> delivered d = delivered c \<and>
            readLoop (Suc n) c as rs2 = readLoop n d as rs3)"
proof -
  define c1 where "c1 = c\<lparr>mClientSocket := - 1, mHasActiveConnection := False,
                  calls := calls c @ replicate (Suc (length pre)) (Sys_recv (mClientSocket c)) @
                             [Sys_close (mClientSocket c)]\<rparr>"
  define cm where "cm = c1\<lparr>calls := calls c1 @
                     concat (map (\<lambda>e. [Sys_accept (mServerSocket c1), Thread_sleep]) es)\<rparr>"
  define c2 where "c2 = c1\<lparr>mClientSocket := fd, mHasActiveConnection := True,
                   calls := calls c1 @
                     concat (map (\<lambda>e. [Sys_accept (mServerSocket c), Thread_sleep]) es) @
                     [Sys_accept (mServerSocket c), Sys_setsockopt fd SO_RCVTIMEO]\<rparr>"
  have rm: "readMessage c (pre @ Recv_closed # rs) = Some ([], c1, rs)"
    unfolding c1_def using assms(6,1,2,3) by (rule readMessage_quiet_eof)
  have f1: "mRunning c1" "\<not> mHasActiveConnection c1" "mServerSocket c1 = mServerSocket c"
    "mClientSocket c1 = - 1"
    using assms(1) by (simp_all add: c1_def)
  have srv: "0 \<le> mServerSocket c1" using assms(4) f1(3) by simp
  have l1: "readLoop (Suc n) c as (pre @ Recv_closed # rs) = readLoop n c1 as rs"
    using assms(1,2) by (simp add: rm)
  have fail: "readLoop (length es + Suc n) c1 (map Accept_fail es @ Accept_fd fd # as) rs =
                readLoop (Suc n) cm (Accept_fd fd # as) rs"
    unfolding cm_def using f1(1,2) srv f1(4) by (rule readLoop_accept_failures)
  have fm: "mRunning cm" "\<not> mHasActiveConnection cm" "0 \<le> mServerSocket cm"
    using f1 srv by (simp_all add: cm_def)
  have "acceptConnection cm (Accept_fd fd # as) =
           Some (True,
                 (sys (Sys_setsockopt fd SO_RCVTIMEO)
                    ((sys (Sys_accept (mServerSocket cm)) cm)\<lparr>mClientSocket := fd\<rparr>))
                   \<lparr>mHasActiveConnection := True\<rparr>,
                 as)"
    using fm(3) assms(5) by (rule acceptConnection_ok)
  also have "(sys (Sys_setsockopt fd SO_RCVTIMEO)
                    ((sys (Sys_accept (mServerSocket cm)) cm)\<lparr>mClientSocket := fd\<rparr>))
                   \<lparr>mHasActiveConnection := True\<rparr> = c2"
    by (simp add: c2_def cm_def sys_def f1(3))
  finally have acc: "acceptConnection cm (Accept_fd fd # as) = Some (True, c2, as)" .
  have "readLoop (Suc n) cm (Accept_fd fd # as) rs =
           (case readMessage c2 rs of
              None \<Rightarrow> Waiting c2
            | Some (message, c3, rs') \<Rightarrow>
                if message \<noteq> [] then readLoop n (processMessage message c3) as rs'
                else readLoop n c3 as rs')"
    using fm(1,2) by (simp add: acc)
  with fail have l2: "readLoop (length es + Suc n) c1 (map Accept_fail es @ Accept_fd fd # as) rs =
           (case readMessage c2 rs of
              None \<Rightarrow> Waiting c2
            | Some (message, c3, rs') \<Rightarrow>
                if message \<noteq> [] then readLoop n (processMessage message c3) as rs'
                else readLoop n c3 as rs')"
    by (rule trans)
  have f2: "mRunning c2" "mHasActiveConnection c2" "mClientSocket c2 = fd"
    "mServerSocket c2 = mServerSocket c"
    using f1 by (simp_all add: c2_def)
  have nc: "new_calls c c2 =
             replicate (Suc (length pre)) (Sys_recv (mClientSocket c)) @
             [Sys_close (mClientSocket c)] @
             concat (map (\<lambda>e. [Sys_accept (mServerSocket c), Thread_sleep]) es) @
             [Sys_accept (mServerSocket c), Sys_setsockopt fd SO_RCVTIMEO]"
    by (rule new_calls_append) (simp add: c2_def c1_def)
  have part1: "\<exists>c1 c2.
           c1 = c\<lparr>mClientSocket := - 1, mHasActiveConnection := False,
                  calls := calls c @ replicate (Suc (length pre)) (Sys_recv (mClientSocket c)) @
                             [Sys_close (mClientSocket c)]\<rparr> \<and>
           c2 = c1\<lparr>mClientSocket := fd, mHasActiveConnection := True,
                   calls := calls c1 @
                     concat (map (\<lambda>e. [Sys_accept (mServerSocket c), Thread_sleep]) es) @
                     [Sys_accept (mServerSocket c), Sys_setsockopt fd SO_RCVTIMEO]\<rparr> \<and>
           readMessage c (pre @ Recv_closed # rs) = Some ([], c1, rs) \<and>
           readLoop (Suc n) c as (pre @ Recv_closed # rs) = readLoop n c1 as rs \<and>
           isRunning c1 \<and> \<not> mHasActiveConnection c1 \<and>
           mServerSocket c1 = mServerSocket c \<and>
           readLoop (length es + Suc n) c1 (map Accept_fail es @ Accept_fd fd # as) rs =
             (case readMessage c2 rs of
                None \<Rightarrow> Waiting c2
              | Some (message, c3, rs') \<Rightarrow>
                  if message \<noteq> [] then readLoop n (processMessage message c3) as rs'
                  else readLoop n c3 as rs') \<and>
           isRunning c2 \<and> mHasActiveConnection c2 \<and> mClientSocket c2 = fd \<and>
           mServerSocket c2 = mServerSocket c \<and>
           new_calls c c2 =
             replicate (Suc (length pre)) (Sys_recv (mClientSocket c)) @
             [Sys_close (mClientSocket c)] @
             concat (map (\<lambda>e. [Sys_accept (mServerSocket c), Thread_sleep]) es) @
             [Sys_accept (mServerSocket c), Sys_setsockopt fd SO_RCVTIMEO]"
    apply (rule exI[of _ c1])
    apply (rule exI[of _ c2])
    using c1_def c2_def rm l1 f1(1-3) l2 f2 nc unfolding isRunning_def
    apply (intro conjI)
    apply assumption+
    done
  have keeps: "\<not> has_exited (readLoop k c bs qs) \<and>
     mRunning (listener_of (readLoop k c bs qs)) \<and>
     mServerSocket (listener_of (readLoop k c bs qs)) = mServerSocket c"
    using assms(1) by (rule keeps_readLoop)
  have never: "list_all (\<lambda>x. \<not> outbound x) (new_calls c (listener_of (readLoop k c bs qs)))"
    by (rule readLoop_never_connects)
  have lost: "m = [] \<and> isRunning d \<and> mClientSocket d = - 1 \<and>
            mServerSocket d = mServerSocket c \<and> delivered d = delivered c \<and>
            readLoop (Suc n) c as rs2 = readLoop n d as rs3"
    if r: "readMessage c rs2 = Some (m, d, rs3)" and na: "\<not> mHasActiveConnection d"
  proof -
    from lost_readMessage[OF r assms(2) na]
    have a: "m = []" "mClientSocket d = - 1" "delivered d = delivered c" by simp_all
    from keeps_readMessage[OF r] assms(1)
    have b: "mRunning d" "mServerSocket d = mServerSocket c" by simp_all
    have "readLoop (Suc n) c as rs2 = readLoop n d as rs3"
      using assms(1,2) r a(1) by simp
    with a b show ?thesis by (simp add: isRunning_def)
  qed
  have k1: "\<not> has_exited (readLoop k c bs qs)" using keeps by (rule conjunct1)
  have k2: "isRunning (listener_of (readLoop k c bs qs))"
    using keeps by (simp add: isRunning_def)
  have k3: "mServerSocket (listener_of (readLoop k c bs qs)) = mServerSocket c"
    using keeps by simp
  have imp: "readMessage c rs2 = Some (m, d, rs3) \<and> \<not> mHasActiveConnection d \<longrightarrow>
            m = [] \<and> isRunning d \<and> mClientSocket d = - 1 \<and>
            mServerSocket d = mServerSocket c \<and> delivered d = delivered c \<and>
            readLoop (Suc n) c as rs2 = readLoop n d as rs3"
    using lost by blast
  show ?thesis
    by (rule conjI[OF part1 conjI[OF k1 conjI[OF k2 conjI[OF k3 conjI[OF never imp]]]]])
qed

theorem peer_loss_returns_to_accepting_witness:
  "mRunning connected_listener \<and> mHasActiveConnection connected_listener \<and>
   0 \<le> mClientSocket connected_listener \<and> 0 \<le> mServerSocket connected_listener \<and>
   (0::int) \<le> 7 \<and>
   list_all quiet [Recv_fail EAGAIN, Recv_bytes ''a='', Recv_fail EWOULDBLOCK] \<and>
   readMessage connected_listener [Recv_fail EOTHER] =
     Some ([], connected_listener\<lparr>mClientSocket := - 1, mHasActiveConnection := False,
                                calls := [Sys_recv 4, Sys_close 4]\<rparr>, []) \<and>
   \<not> mHasActiveConnection (connected_listener\<lparr>mClientSocket := - 1,
        mHasActiveConnection := False, calls := [Sys_recv 4, Sys_close 4]\<rparr>) \<and>
   (\<exists>c1 c2.
      readMessage connected_listener
        [Recv_fail EAGAIN, Recv_bytes ''a='', Recv_fail EWOULDBLOCK, Recv_closed] =
          Some ([], c1, []) \<and>
      isRunning c1 \<and> mServerSocket c1 = 3 \<and>
      readLoop 2 c1 [Accept_fail EAGAIN, Accept_fd 7] [] = Waiting c2 \<and>
      isRunning c2 \<and> mHasActiveConnection c2 \<and> mClientSocket c2 = 7 \<and>
      new_calls connected_listener c2 =
        [Sys_recv 4, Sys_recv 4, Sys_recv 4, Sys_recv 4, Sys_close 4,
         Sys_accept 3, Thread_sleep, Sys_accept 3, Sys_setsockopt 7 SO_RCVTIMEO]) \<and>
   \<not> has_exited (readLoop 3 connected_listener [Accept_fail EAGAIN] [Recv_closed]) \<and>
   readLoop 1 connected_listener [] [Recv_fail EOTHER] =
     readLoop 0 (connected_listener\<lparr>mClientSocket := - 1, mHasActiveConnection := False,
                                    calls := [Sys_recv 4, Sys_close 4]\<rparr>) [] []"
proof -
  let ?d = "connected_listener\<lparr>mClientSocket := - 1, mHasActiveConnection := False,
                                calls := [Sys_recv 4, Sys_close 4]\<rparr>"
  have h: "mRunning connected_listener" "mHasActiveConnection connected_listener"
    "0 \<le> mClientSocket connected_listener" "0 \<le> mServerSocket connected_listener"
    by (simp_all add: connected_listener_def)
  have f: "(0::int) \<le> 7" by simp
  have q: "list_all quiet [Recv_fail EAGAIN, Recv_bytes ''a='', Recv_fail EWOULDBLOCK]"
    by simp
  have v: "mServerSocket connected_listener = 3" "mClientSocket connected_listener = 4"
    by (simp_all add: connected_listener_def)
  have e: "readMessage connected_listener [Recv_fail EOTHER] = Some ([], ?d, [])"
    by (simp add: readMessage_def dropClient_def sys_def connected_listener_def)
  have na: "\<not> mHasActiveConnection ?d" by simp
  note t = peer_loss_returns_to_accepting[OF h f q,
      where es = "[EAGAIN]" and rs = "[]" and n = 0 and as = "[]" and k = 3
        and bs = "[Accept_fail EAGAIN]" and qs = "[Recv_closed]"
        and ?rs2.0 = "[Recv_fail EOTHER]" and m = "[]" and d = ?d and ?rs3.0 = "[]"]
  from t obtain c1 c2 where
    a: "readMessage connected_listener
          ([Recv_fail EAGAIN, Recv_bytes ''a='', Recv_fail EWOULDBLOCK] @ [Recv_closed]) =
            Some ([], c1, [])"
      "isRunning c1" "mServerSocket c1 = mServerSocket connected_listener"
      "readLoop (length [EAGAIN] + Suc 0) c1 (map Accept_fail [EAGAIN] @ [Accept_fd 7]) [] =
         (case readMessage c2 [] of
            None \<Rightarrow> Waiting c2
          | Some (message, c3, rs') \<Rightarrow>
              if message \<noteq> [] then readLoop 0 (processMessage message c3) [] rs'
              else readLoop 0 c3 [] rs')"
      "isRunning c2" "mHasActiveConnection c2" "mClientSocket c2 = 7"
      "new_calls connected_listener c2 =
         replicate (Suc (length [Recv_fail EAGAIN, Recv_bytes ''a='', Recv_fail EWOULDBLOCK]))
           (Sys_recv (mClientSocket connected_listener)) @
         [Sys_close (mClientSocket connected_listener)] @
         concat (map (\<lambda>e. [Sys_accept (mServerSocket connected_listener), Thread_sleep]) [EAGAIN]) @
         [Sys_accept (mServerSocket connected_listener), Sys_setsockopt 7 SO_RCVTIMEO]"
    by blast
  have w: "readMessage c2 [] = None"
    using a(5,6,7) by (simp add: readMessage_def isRunning_def)
  have p1: "\<exists>c1 c2.
      readMessage connected_listener
        [Recv_fail EAGAIN, Recv_bytes ''a='', Recv_fail EWOULDBLOCK, Recv_closed] =
          Some ([], c1, []) \<and>
      isRunning c1 \<and> mServerSocket c1 = 3 \<and>
      readLoop 2 c1 [Accept_fail EAGAIN, Accept_fd 7] [] = Waiting c2 \<and>
      isRunning c2 \<and> mHasActiveConnection c2 \<and> mClientSocket c2 = 7 \<and>
      new_calls connected_listener c2 =
        [Sys_recv 4, Sys_recv 4, Sys_recv 4, Sys_recv 4, Sys_close 4,
         Sys_accept 3, Thread_sleep, Sys_accept 3, Sys_setsockopt 7 SO_RCVTIMEO]"
    apply (rule exI[of _ c1])
    apply (rule exI[of _ c2])
    using a w v by (simp add: numeral_2_eq_2 eval_nat_numeral)
  from t e na have p2:
    "\<not> has_exited (readLoop 3 connected_listener [Accept_fail EAGAIN] [Recv_closed])"
    "readLoop (Suc 0) connected_listener [] [Recv_fail EOTHER] = readLoop 0 ?d [] []"
    by blast+
  show ?thesis using h f q e na p1 p2 by simp
qed

text \<open>
  C10. \<open>start\<close> on a listener that is already running returns \<open>true\<close> and leaves the
  object, the log of system calls included, exactly as it was: no socket is created or
  bound and no thread is spawned.
\<close>

theorem start_when_running:
  assumes "mRunning c"
  shows "start rep c = (c, True) \<and> new_calls c (fst (start rep c)) = []"
  using assms by (simp add: start_def new_calls_def)

theorem start_when_running_witness:
  "mRunning connected_listener \<and>
   start \<lparr>socket_ret = 5, setsockopt_ret = 0, bind_ret = 0, listen_ret = 0\<rparr> connected_listener
     = (connected_listener, True)"
proof -
  have h: "mRunning connected_listener" by (simp add: connected_listener_def)
  show ?thesis
    using start_when_running[OF h,
        of "\<lparr>socket_ret = 5, setsockopt_ret = 0, bind_ret = 0, listen_ret = 0\<rparr>"] h
    by simp
qed


text \<open>
  C2. The framer does not keep the bytes that follow a terminator. When one \<open>recv\<close>
  delivers two records, \<open>readMessage\<close> returns the first and the rest of its local
  buffer is discarded with the call: of the stream \<open>a=1\<close>, \<open>b=2\<close>, \<open>c=3\<close> (each
  followed by a line feed) the record \<open>b=2\<close> is never handed to the processor when the
  first two records arrive together, while all three are handed over when every record
  arrives in a read of its own.
\<close>

theorem framer_loses_bytes_after_terminator:
  "delivered (listener_of (readLoop 3 connected_listener []
      [Recv_bytes (''a=1'' @ [CHR 0x0A] @ ''b=2'' @ [CHR 0x0A]),
       Recv_bytes (''c=3'' @ [CHR 0x0A])])) = [''a=1'', ''c=3''] \<and>
   delivered (listener_of (readLoop 4 connected_listener []
      [Recv_bytes (''a=1'' @ [CHR 0x0A]),
       Recv_bytes (''b=2'' @ [CHR 0x0A]),
       Recv_bytes (''c=3'' @ [CHR 0x0A])])) = [''a=1'', ''b=2'', ''c=3'']"
  by code_simp

section \<open>Properties of the conversion engine\<close>

lemma clamp_steps:
  assumes "bounds_ordered r"
  shows "(case max_value r of
            None \<Rightarrow> (case min_value r of None \<Rightarrow> v | Some lo \<Rightarrow> if v < lo then lo else v)
          | Some hi \<Rightarrow>
              if (case min_value r of None \<Rightarrow> v | Some lo \<Rightarrow> if v < lo then lo else v) > hi
              then hi
              else (case min_value r of None \<Rightarrow> v | Some lo \<Rightarrow> if v < lo then lo else v))
         = clamp r v"
  using assms
  by (auto simp: clamp_def clampFloat_def bounds_ordered_def split: option.splits)

lemma scale_steps:
  "(if unit_offset r \<noteq> 0
    then (if unit_multiplier r \<noteq> 1 then v * unit_multiplier r else v) + unit_offset r
    else (if unit_multiplier r \<noteq> 1 then v * unit_multiplier r else v)) = scale r v"
  by (simp add: scale_def applyLinearScaling_def)

lemma parse_number_100: "parse_number Float ''100'' = Inr 100"
  by code_simp

text \<open>
  C1. For a rule whose bounds are ordered, the conversion of any raw text is the parse
  of the text, then the scaling \<open>value * multiplier + offset\<close>, then the clamp to the
  bounds that are present; a text that does not parse gives the parse error. For the
  rule with multiplier 3.6 and bounds 0 and 300 the text \<open>100\<close> is scaled to 360 and
  clamped to 300.
\<close>

theorem convert_is_clamp_scale_parse:
  assumes "bounds_ordered r"
  shows "convert r raw =
           map_sum id (\<lambda>v. clamp r (scale r v)) (parse_number (data_kind r) raw)"
proof (cases "parse_number (data_kind r) raw")
  case (Inl e)
  then show ?thesis by (simp add: convert_def)
next
  case (Inr v)
  have "convert r raw = Inr (clamp r (scale r v))"
    unfolding convert_def Inr Let_def sum.case
    by (simp only: scale_steps clamp_steps[OF assms])
  with Inr show ?thesis by simp
qed

theorem convert_is_clamp_scale_parse_witness:
  "bounds_ordered speed_rule \<and>
   parse_number (data_kind speed_rule) ''100'' = Inr 100 \<and>
   scale speed_rule 100 = 360 \<and>
   clamp speed_rule 360 = 300 \<and>
   convert speed_rule ''100'' = Inr 300 \<and>
   convert speed_rule ''100'' \<noteq> Inr 360"
proof -
  have h: "bounds_ordered speed_rule" by (simp add: bounds_ordered_def speed_rule_def)
  have p: "parse_number (data_kind speed_rule) ''100'' = Inr 100"
    using parse_number_100 by (simp add: speed_rule_def)
  have s: "scale speed_rule 100 = 360"
    by (simp add: scale_def applyLinearScaling_def speed_rule_def)
  have c: "clamp speed_rule 360 = 300"
    by (simp add: clamp_def clampFloat_def speed_rule_def)
  show ?thesis
    using convert_is_clamp_scale_parse[OF h, of "''100''"] h p s c by simp
qed












end
